theory Spec2Isabelle
  imports Main "HOL-Library.Sublist" "HOL-Library.Char_ord"
begin

section \<open>The address pattern\<close>

text \<open>
  Both extraction functions of \<^verbatim>\<open>main.py\<close> apply the same regular expression
  \<^verbatim>\<open>[a-zA-Z0-9._%+-]+@[a-zA-Z0-9.-]+\.[a-zA-Z]{2,}\<close> with \<^verbatim>\<open>re.findall\<close>.
  A text is a \<open>string\<close>; a character outside ASCII belongs to none of the three classes,
  so it only ever separates matches.
\<close>

definition is_letter :: "char \<Rightarrow> bool" where
  "is_letter c = ((CHR ''a'' \<le> c \<and> c \<le> CHR ''z'') \<or> (CHR ''A'' \<le> c \<and> c \<le> CHR ''Z''))"

definition is_digit :: "char \<Rightarrow> bool" where
  "is_digit c = (CHR ''0'' \<le> c \<and> c \<le> CHR ''9'')"

definition local_char :: "char \<Rightarrow> bool" where
  "local_char c = (is_letter c \<or> is_digit c \<or> c \<in> set ''._%+-'')"

definition domain_char :: "char \<Rightarrow> bool" where
  "domain_char c = (is_letter c \<or> is_digit c \<or> c \<in> set ''.-'')"

definition is_at :: "char \<Rightarrow> bool" where
  "is_at c = (c = CHR ''@'')"

definition is_dot :: "char \<Rightarrow> bool" where
  "is_dot c = (c = CHR ''.'')"

text \<open>
  The expression is a sequence of character classes, each taken once or repeated greedily
  at least \<open>lo\<close> times: \<open>Single P\<close> is one character of the class \<open>P\<close>,
  \<open>Repeat P lo\<close> is \<^verbatim>\<open>P{lo,}\<close> (so \<^verbatim>\<open>+\<close> is \<open>Repeat P 1\<close>).
\<close>

datatype piece = Single "char \<Rightarrow> bool" | Repeat "char \<Rightarrow> bool" nat

definition email_pattern :: "piece list" where
  "email_pattern =
     [Repeat local_char 1, Single is_at, Repeat domain_char 1, Single is_dot, Repeat is_letter 2]"

text \<open>
  The backtracking matcher of \<^verbatim>\<open>re\<close>, anchored at the head of \<open>s\<close>: a greedy
  repetition first takes the longest run of its class, then gives characters back one at a
  time (never below \<open>lo\<close>) until the rest of the expression matches. The result is the
  length of the match.
\<close>

fun match_pieces :: "piece list \<Rightarrow> string \<Rightarrow> nat option"
and backtrack :: "piece list \<Rightarrow> nat \<Rightarrow> nat \<Rightarrow> string \<Rightarrow> nat option" where
  "match_pieces [] s = Some 0"
| "match_pieces (Single P # ps) s =
     (case s of
        [] \<Rightarrow> None
      | c # cs \<Rightarrow> if P c then map_option Suc (match_pieces ps cs) else None)"
| "match_pieces (Repeat P lo # ps) s =
     (let n = length (takeWhile P s) in if n < lo then None else backtrack ps lo n s)"
| "backtrack ps lo k s =
     (case match_pieces ps (drop k s) of
        Some r \<Rightarrow> Some (k + r)
      | None \<Rightarrow> if k \<le> lo then None else backtrack ps lo (k - 1) s)"

text \<open>The language of the expression, stated without any search order.\<close>

fun denotes :: "piece list \<Rightarrow> string \<Rightarrow> bool" where
  "denotes [] s = (s = [])"
| "denotes (Single P # ps) s = (\<exists>c cs. s = c # cs \<and> P c \<and> denotes ps cs)"
| "denotes (Repeat P lo # ps) s =
     (\<exists>u v. s = u @ v \<and> lo \<le> length u \<and> list_all P u \<and> denotes ps v)"

text \<open>
  The matching rule in the words of the specification: one or more characters of the local
  class, \<open>@\<close>, one or more characters of the domain class, a dot, two or more letters.
\<close>

definition email_shaped :: "string \<Rightarrow> bool" where
  "email_shaped s =
     (\<exists>l d t. s = l @ ''@'' @ d @ ''.'' @ t \<and>
        l \<noteq> [] \<and> list_all local_char l \<and>
        d \<noteq> [] \<and> list_all domain_char d \<and>
        2 \<le> length t \<and> list_all is_letter t)"

lemma backtrack_lower:
  "backtrack ps lo k s = Some n \<Longrightarrow> lo \<le> k \<Longrightarrow> lo \<le> n"
proof (induction k arbitrary: n)
  case 0
  then show ?case by simp
next
  case (Suc k)
  show ?case
  proof (cases "match_pieces ps (drop (Suc k) s)")
    case (Some r)
    with Suc.prems show ?thesis by auto
  next
    case None
    with Suc.prems have "\<not> Suc k \<le> lo" and "backtrack ps lo k s = Some n"
      by (auto split: if_splits)
    with Suc.IH show ?thesis by simp
  qed
qed

lemma email_match_pos:
  assumes "match_pieces email_pattern s = Some n"
  shows "0 < n"
proof -
  let ?ps = "[Single is_at, Repeat domain_char 1, Single is_dot, Repeat is_letter 2]"
  let ?k = "length (takeWhile local_char s)"
  from assms have run: "backtrack ?ps 1 ?k s = Some n" and "\<not> ?k < 1"
    unfolding email_pattern_def
    by (simp_all add: Let_def split: if_splits del: backtrack.simps)
  then have "1 \<le> ?k"
    by (simp add: Suc_le_eq)
  with run have "backtrack ?ps 1 ?k s = Some n" and "1 \<le> ?k"
    by blast+
  then have "1 \<le> n"
    by (rule backtrack_lower)
  then show ?thesis by simp
qed

text \<open>
  \<^verbatim>\<open>re.findall\<close> with the address pattern: scan from the left; where the pattern matches,
  keep the match and resume right after it; elsewhere move one character on.
\<close>

function find_emails :: "string \<Rightarrow> string list" where
  "find_emails [] = []"
| "find_emails (c # cs) =
     (case match_pieces email_pattern (c # cs) of
        None \<Rightarrow> find_emails cs
      | Some n \<Rightarrow> take n (c # cs) # find_emails (drop n (c # cs)))"
  by pat_completeness auto
termination
proof (relation "measure length")
  show "wf (measure length)" by simp
next
  fix c :: char and cs
  show "(cs, c # cs) \<in> measure length" by simp
next
  fix c :: char and cs n
  assume "match_pieces email_pattern (c # cs) = Some n"
  then have "0 < n" by (rule email_match_pos)
  then show "(drop n (c # cs), c # cs) \<in> measure length" by simp
qed

section \<open>The environment of a run\<close>

text \<open>
  Everything the program reads from outside is a field of \<open>world\<close>:
  \<^item> \<open>fetch url\<close>: the outcome of \<^verbatim>\<open>requests.get\<close>, \<^verbatim>\<open>raise_for_status\<close> and
    \<^verbatim>\<open>BeautifulSoup(...).get_text()\<close>, which is the visible text of the page, a
    \<^verbatim>\<open>RequestException\<close> (connection error, timeout, bad status) or any other exception;
  \<^item> \<open>read_text path\<close>: the outcome of \<^verbatim>\<open>open(path, 'r', encoding='utf-8',
    errors='ignore')\<close> and \<^verbatim>\<open>read()\<close>, which is the decoded text,
    \<^verbatim>\<open>FileNotFoundError\<close> or any other exception;
  \<^item> \<open>isfile\<close>, \<open>isdir\<close>: \<^verbatim>\<open>os.path.isfile\<close>, \<^verbatim>\<open>os.path.isdir\<close>;
  \<^item> \<open>scan path\<close>: what \<^verbatim>\<open>os.walk(path)\<close> finds, see \<open>os_walk\<close> below;
  \<^item> \<open>writable path\<close>: whether \<^verbatim>\<open>open(path, 'w')\<close> and the writes succeed;
  \<^item> \<open>iteration S\<close>: the order in which Python iterates over the set \<open>S\<close>.
\<close>

datatype fetch_result = Page string | RequestException | FetchOtherException

datatype read_result = Text string | FileNotFoundError | ReadOtherException

text \<open>
  A directory as \<^verbatim>\<open>os.scandir\<close> lists it: its subdirectories by name, and the names of
  its other entries. \<open>Unlistable\<close> is a directory whose \<^verbatim>\<open>scandir\<close> raises \<^verbatim>\<open>OSError\<close>
  (permission denied, not a directory, no such path).
\<close>

datatype dirtree = Listing "(string \<times> dirtree) list" "string list" | Unlistable

text \<open>
  \<open>Raises\<close> stands for an exception that \<^verbatim>\<open>os.walk\<close> does not handle itself, that is
  any exception other than \<^verbatim>\<open>OSError\<close> (a path with an embedded null byte gives
  \<^verbatim>\<open>ValueError\<close>).
\<close>

datatype scan_result = Tree dirtree | Raises

record world =
  fetch :: "string \<Rightarrow> fetch_result"
  read_text :: "string \<Rightarrow> read_result"
  isfile :: "string \<Rightarrow> bool"
  isdir :: "string \<Rightarrow> bool"
  scan :: "string \<Rightarrow> scan_result"
  writable :: "string \<Rightarrow> bool"
  iteration :: "string set \<Rightarrow> string list"

text \<open>What a run does, in order: the calls that reach outside, the log lines, the output.\<close>

datatype message =
    ErrorFetchingUrl string
  | ErrorProcessingUrl string
  | FileNotFound string
  | ErrorProcessingFile string
  | ErrorProcessingDirectory string
  | SavedTo string
  | ErrorSaving
  | InvalidSource
  | NoEmailsExtracted
  | ExtractionComplete

datatype event =
    HttpGet string
  | OpenRead string
  | Walk string
  | WriteFile string string
  | Print string
  | LogError message
  | LogInfo message

section \<open>The program\<close>

definition extract_emails_from_url :: "world \<Rightarrow> string \<Rightarrow> string set option \<times> event list" where
  "extract_emails_from_url w url =
     (case fetch w url of
        Page text \<Rightarrow> (Some (set (find_emails text)), [HttpGet url])
      | RequestException \<Rightarrow> (None, [HttpGet url, LogError (ErrorFetchingUrl url)])
      | FetchOtherException \<Rightarrow> (None, [HttpGet url, LogError (ErrorProcessingUrl url)]))"

definition extract_emails_from_file :: "world \<Rightarrow> string \<Rightarrow> string set option \<times> event list" where
  "extract_emails_from_file w file_path =
     (case read_text w file_path of
        Text text \<Rightarrow> (Some (set (find_emails text)), [OpenRead file_path])
      | FileNotFoundError \<Rightarrow> (None, [OpenRead file_path, LogError (FileNotFound file_path)])
      | ReadOtherException \<Rightarrow>
          (None, [OpenRead file_path, LogError (ErrorProcessingFile file_path)]))"

text \<open>\<^verbatim>\<open>os.path.join\<close> with two arguments (POSIX).\<close>

definition path_join :: "string \<Rightarrow> string \<Rightarrow> string" where
  "path_join a b =
     (if prefix ''/'' b then b
      else if a = [] \<or> suffix ''/'' a then a @ b
      else a @ ''/'' @ b)"

text \<open>
  \<^verbatim>\<open>os.walk(top)\<close> with its defaults (top-down, \<^verbatim>\<open>onerror=None\<close>): the triples it yields.
  A directory that cannot be listed yields nothing, since \<^verbatim>\<open>os.walk\<close> ignores the
  \<^verbatim>\<open>OSError\<close> of \<^verbatim>\<open>scandir\<close> when no \<^verbatim>\<open>onerror\<close> is given; otherwise the directory's own
  triple comes first, then the triples of its subdirectories in the listed order.
\<close>

fun walk_tree :: "string \<Rightarrow> dirtree \<Rightarrow> (string \<times> string list \<times> string list) list" where
  "walk_tree root Unlistable = []"
| "walk_tree root (Listing dirs files) =
     (root, map fst dirs, files) # concat (map (\<lambda>(d, t). walk_tree (path_join root d) t) dirs)"

definition os_walk :: "world \<Rightarrow> string \<Rightarrow> (string \<times> string list \<times> string list) list option" where
  "os_walk w path = (case scan w path of Tree t \<Rightarrow> Some (walk_tree path t) | Raises \<Rightarrow> None)"

text \<open>
  The inner loop of \<^verbatim>\<open>extract_emails_from_directory\<close>, over the files of one directory.
  The state is the accumulated set \<^verbatim>\<open>all_emails\<close> and the events so far.
\<close>

fun files_loop ::
  "world \<Rightarrow> string \<Rightarrow> string list \<Rightarrow> string set \<times> event list \<Rightarrow> string set \<times> event list" where
  "files_loop w root [] st = st"
| "files_loop w root (file # files) (all_emails, evs) =
     (let file_path = path_join root file;
          (emails, log) = extract_emails_from_file w file_path
      in files_loop w root files
           (case emails of
              Some found \<Rightarrow> (all_emails \<union> found, evs @ log)
            | None \<Rightarrow> (all_emails, evs @ log)))"

text \<open>The outer loop, over the triples of the walk; it stops after the first when not recursive.\<close>

fun walk_loop ::
  "world \<Rightarrow> bool \<Rightarrow> (string \<times> string list \<times> string list) list \<Rightarrow> string set \<times> event list
     \<Rightarrow> string set \<times> event list" where
  "walk_loop w recursive [] st = st"
| "walk_loop w recursive ((root, dirs, files) # rest) st =
     (let st' = files_loop w root files st
      in if \<not> recursive then st' else walk_loop w recursive rest st')"

definition extract_emails_from_directory ::
  "world \<Rightarrow> string \<Rightarrow> bool \<Rightarrow> string set option \<times> event list" where
  "extract_emails_from_directory w directory_path recursive =
     (case os_walk w directory_path of
        None \<Rightarrow>
          (None, [Walk directory_path, LogError (ErrorProcessingDirectory directory_path)])
      | Some triples \<Rightarrow>
          (let (all_emails, evs) = walk_loop w recursive triples ({}, [Walk directory_path])
           in (Some all_emails, evs)))"

definition newline :: char where
  "newline = CHR 0x0A"

definition save_emails_to_file :: "world \<Rightarrow> string set \<Rightarrow> string \<Rightarrow> event list" where
  "save_emails_to_file w emails output_file =
     (if writable w output_file
      then [WriteFile output_file (concat (map (\<lambda>email. email @ [newline]) (iteration w emails))),
            LogInfo (SavedTo output_file)]
      else [LogError ErrorSaving])"

text \<open>The part of \<^verbatim>\<open>main\<close> after the source has been dispatched (lines 139 to 149).\<close>

definition report :: "world \<Rightarrow> string option \<Rightarrow> string set option \<times> event list \<Rightarrow> event list" where
  "report w output_file r =
     (case r of
        (None, evs) \<Rightarrow> evs @ [LogError NoEmailsExtracted]
      | (Some emails, evs) \<Rightarrow>
          evs @
          (if output_file \<noteq> None \<and> output_file \<noteq> Some []
           then save_emails_to_file w emails (the output_file)
           else map Print (iteration w emails)) @
          [LogInfo ExtractionComplete])"

definition main :: "world \<Rightarrow> string \<Rightarrow> bool \<Rightarrow> string option \<Rightarrow> event list" where
  "main w source recursive output_file =
     (if prefix ''http://'' source \<or> prefix ''https://'' source
        then report w output_file (extract_emails_from_url w source)
      else if isfile w source
        then report w output_file (extract_emails_from_file w source)
      else if isdir w source
        then report w output_file (extract_emails_from_directory w source recursive)
      else [LogError InvalidSource])"

section \<open>Notions used to state the properties\<close>

text \<open>The files a run opened for reading, in order.\<close>

fun opened :: "event list \<Rightarrow> string list" where
  "opened [] = []"
| "opened (OpenRead p # evs) = p # opened evs"
| "opened (e # evs) = opened evs"

text \<open>The calls that reach outside to acquire a source.\<close>

fun is_call :: "event \<Rightarrow> bool" where
  "is_call (HttpGet u) = True"
| "is_call (OpenRead p) = True"
| "is_call (Walk p) = True"
| "is_call e = False"

definition calls :: "event list \<Rightarrow> event list" where
  "calls evs = filter is_call evs"

text \<open>
  What only the sink does: a line on standard output, a write to the destination, and the
  two log lines of \<^verbatim>\<open>save_emails_to_file\<close>.
\<close>

fun is_sink :: "event \<Rightarrow> bool" where
  "is_sink (Print l) = True"
| "is_sink (WriteFile p c) = True"
| "is_sink (LogInfo (SavedTo p)) = True"
| "is_sink (LogError ErrorSaving) = True"
| "is_sink e = False"

text \<open>
  A run that produced no output: nothing of the sink in its events, no ``extraction
  complete'', and an error log line as its last event.
\<close>

definition no_output :: "event list \<Rightarrow> bool" where
  "no_output evs =
     (filter is_sink evs = [] \<and> LogInfo ExtractionComplete \<notin> set evs \<and>
      (last evs = LogError NoEmailsExtracted \<or> last evs = LogError InvalidSource))"

text \<open>The paths of the files directly in a directory, and of the files at every depth.\<close>

fun top_files :: "string \<Rightarrow> dirtree \<Rightarrow> string list" where
  "top_files root Unlistable = []"
| "top_files root (Listing dirs files) = map (path_join root) files"

fun tree_files :: "string \<Rightarrow> dirtree \<Rightarrow> string list" where
  "tree_files root Unlistable = []"
| "tree_files root (Listing dirs files) =
     map (path_join root) files @
     concat (map (\<lambda>(d, t). tree_files (path_join root d) t) dirs)"


text \<open>
  Reading a text file back line by line, each line without its terminator; a last line
  that has no terminator still counts.
\<close>

fun lines_from :: "string \<Rightarrow> string \<Rightarrow> string list" where
  "lines_from cur [] = (if cur = [] then [] else [cur])"
| "lines_from cur (c # cs) =
     (if c = newline then cur # lines_from [] cs else lines_from (cur @ [c]) cs)"

definition read_lines :: "string \<Rightarrow> string list" where
  "read_lines s = lines_from [] s"

text \<open>The characters for which Python's \<^verbatim>\<open>str.isspace\<close> holds, within ASCII.\<close>

definition is_whitespace :: "char \<Rightarrow> bool" where
  "is_whitespace c =
     (c \<in> set [CHR 0x20, CHR 0x09, CHR 0x0A, CHR 0x0B, CHR 0x0C, CHR 0x0D,
                CHR 0x1C, CHR 0x1D, CHR 0x1E, CHR 0x1F])"




text \<open>What one file contributes to a directory's result: its matches when it can be read.\<close>

definition harvest :: "world \<Rightarrow> string \<Rightarrow> string set" where
  "harvest w p = (case read_text w p of Text doc \<Rightarrow> set (find_emails doc) | _ \<Rightarrow> {})"

text \<open>The paths the inner loop builds from one triple of the walk.\<close>

fun triple_paths :: "string \<times> string list \<times> string list \<Rightarrow> string list" where
  "triple_paths (root, dirs, files) = map (path_join root) files"

text \<open>The files a walk is expected to visit: every file when recursive, else the top ones.\<close>

definition visited :: "bool \<Rightarrow> string \<Rightarrow> dirtree \<Rightarrow> string list" where
  "visited recursive root t = (if recursive then tree_files root t else top_files root t)"

text \<open>The test the dispatcher applies first.\<close>

definition is_url :: "string \<Rightarrow> bool" where
  "is_url source = (prefix ''http://'' source \<or> prefix ''https://'' source)"


text \<open>
  The shape of an extracted string \<open>e\<close> with respect to the text \<open>doc\<close> it comes from: one
  \<open>@\<close> with something on both sides, no whitespace (indeed no character but \<open>@\<close> and those
  of the local class), and a contiguous part of \<open>doc\<close>.
\<close>

definition address_in :: "string \<Rightarrow> string \<Rightarrow> bool" where
  "address_in e doc =
     (count_list e CHR ''@'' = 1 \<and>
      (\<exists>l r. e = l @ ''@'' @ r \<and> l \<noteq> [] \<and> r \<noteq> []) \<and>
      \<not> list_ex is_whitespace e \<and>
      list_all (\<lambda>c. local_char c \<or> is_at c) e \<and>
      sublist e doc)"

text \<open>
  A small environment to evaluate the program on: a page, a directory \<open>d\<close> with two files
  holding the same address (the second one twice), an unreadable file between them and a
  subdirectory; a directory \<open>pair\<close> with two files holding the same address; a
  directory \<open>locked\<close> that cannot be listed; a path \<open>odd\<close> on which the walk raises.
\<close>

definition demo_world :: world where
  "demo_world = \<lparr>
     fetch = (\<lambda>url. if url = ''http://example.com/contact''
                     then Page ''Contact: a.b+c@example.co.uk or bad-email''
                     else if url = ''http://example.com/broken'' then FetchOtherException
                     else RequestException),
     read_text = (\<lambda>p. if p = ''d/f1.txt'' \<or> p = ''pair/f1.txt'' \<or> p = ''pair/f2.txt''
                        then Text ''x@y.com''
                      else if p = ''d/f2.txt'' then Text ''x@y.com, x@y.com''
                      else if p = ''d/sub/deep.txt'' then Text ''deep@sub.example.org x@y.com''
                      else if p = ''notes.txt'' then Text ''bad-email''
                      else if p = ''d/locked.bin'' then ReadOtherException
                      else FileNotFoundError),
     isfile = (\<lambda>p. p = ''notes.txt'' \<or> p = ''vanished.txt''),
     isdir = (\<lambda>p. p = ''d'' \<or> p = ''pair'' \<or> p = ''locked'' \<or> p = ''odd''),
     scan = (\<lambda>p. if p = ''d''
                 then Tree (Listing [(''sub'', Listing [] [''deep.txt''])]
                                    [''f1.txt'', ''locked.bin'', ''f2.txt''])
                 else if p = ''pair'' then Tree (Listing [] [''f1.txt'', ''f2.txt''])
                 else if p = ''odd'' then Raises
                 else Tree Unlistable),
     writable = (\<lambda>p. p = ''out.txt''),
     iteration = (\<lambda>S. if S = {''x@y.com''} then [''x@y.com'']
                      else if S = {''x@y.com'', ''deep@sub.example.org''}
                        then [''deep@sub.example.org'', ''x@y.com'']
                      else if S = {''a.b+c@example.co.uk''} then [''a.b+c@example.co.uk'']
                      else [])\<rparr>"

section \<open>The matcher against the language of the pattern\<close>

declare backtrack.simps [simp del]

lemma backtrack_SomeD:
  "backtrack ps lo k s = Some n \<Longrightarrow> lo \<le> k \<Longrightarrow>
   \<exists>j r. lo \<le> j \<and> j \<le> k \<and> match_pieces ps (drop j s) = Some r \<and> n = j + r \<and>
     (\<forall>i. j < i \<and> i \<le> k \<longrightarrow> match_pieces ps (drop i s) = None)"
proof (induction k)
  case 0
  then show ?case
    by (auto simp: backtrack.simps split: option.splits)
next
  case (Suc k)
  show ?case
  proof (cases "match_pieces ps (drop (Suc k) s)")
    case (Some r)
    with Suc.prems have "n = Suc k + r" by (simp add: backtrack.simps)
    with Some Suc.prems(2) have "lo \<le> Suc k \<and> Suc k \<le> Suc k \<and>
        match_pieces ps (drop (Suc k) s) = Some r \<and> n = Suc k + r \<and>
        (\<forall>i. Suc k < i \<and> i \<le> Suc k \<longrightarrow> match_pieces ps (drop i s) = None)"
      by auto
    then show ?thesis by blast
  next
    case None
    with Suc.prems have "backtrack ps lo k s = Some n" "lo \<le> k"
      by (auto simp: backtrack.simps split: if_splits)
    with Suc.IH obtain j r where jr: "lo \<le> j" "j \<le> k" "match_pieces ps (drop j s) = Some r"
      "n = j + r" "\<forall>i. j < i \<and> i \<le> k \<longrightarrow> match_pieces ps (drop i s) = None"
      by blast
    have "\<forall>i. j < i \<and> i \<le> Suc k \<longrightarrow> match_pieces ps (drop i s) = None"
      using jr(5) None by (auto simp: le_Suc_eq)
    with jr have "lo \<le> j \<and> j \<le> Suc k \<and> match_pieces ps (drop j s) = Some r \<and> n = j + r \<and>
        (\<forall>i. j < i \<and> i \<le> Suc k \<longrightarrow> match_pieces ps (drop i s) = None)"
      by simp
    then show ?thesis by blast
  qed
qed

lemma backtrack_complete:
  "match_pieces ps (drop j s) = Some r \<Longrightarrow> lo \<le> j \<Longrightarrow> j \<le> k \<Longrightarrow>
   \<exists>n. backtrack ps lo k s = Some n"
proof (induction k)
  case 0
  then show ?case by (simp add: backtrack.simps)
next
  case (Suc k)
  show ?case
  proof (cases "match_pieces ps (drop (Suc k) s)")
    case (Some r')
    then show ?thesis by (simp add: backtrack.simps)
  next
    case None
    with Suc.prems have "j \<noteq> Suc k" by auto
    with Suc.prems have "j \<le> k" by simp
    with Suc have "\<exists>n. backtrack ps lo k s = Some n" by simp
    moreover from \<open>j \<le> k\<close> \<open>lo \<le> j\<close> have "\<not> Suc k \<le> lo" by simp
    ultimately show ?thesis using None by (simp add: backtrack.simps)
  qed
qed

lemma take_run_all: "j \<le> length (takeWhile P s) \<Longrightarrow> list_all P (take j s)"
proof (induction s arbitrary: j)
  case Nil
  then show ?case by simp
next
  case (Cons c s)
  then show ?case by (cases j) (auto split: if_splits)
qed

lemma run_covers: "list_all P u \<Longrightarrow> length u \<le> length (takeWhile P (u @ w))"
  by (induction u) auto

lemma match_pieces_sound:
  "match_pieces ps s = Some n \<Longrightarrow> n \<le> length s \<and> denotes ps (take n s)"
proof (induction ps arbitrary: s n)
  case Nil
  then show ?case by simp
next
  case (Cons p ps)
  show ?case
  proof (cases p)
    case (Single P)
    with Cons.prems obtain c cs m where s: "s = c # cs" "P c" "match_pieces ps cs = Some m" "n = Suc m"
      by (auto split: list.splits if_splits)
    with Cons.IH [of cs m] Single show ?thesis by simp
  next
    case (Repeat P lo)
    let ?k = "length (takeWhile P s)"
    from Cons.prems Repeat have "lo \<le> ?k" "backtrack ps lo ?k s = Some n"
      by (auto simp: Let_def split: if_splits)
    from backtrack_SomeD [OF this(2,1)] obtain j r where
      jr: "lo \<le> j" "j \<le> ?k" "match_pieces ps (drop j s) = Some r" "n = j + r"
      by blast
    from Cons.IH [OF jr(3)] have r: "r \<le> length s - j" "denotes ps (take r (drop j s))"
      by simp_all
    have jl: "j \<le> length s"
      using jr(2) length_takeWhile_le [of P s] by linarith
    have split: "take n s = take j s @ take r (drop j s)"
      unfolding jr(4) by (simp add: take_add)
    have "list_all P (take j s)" using jr(2) by (rule take_run_all)
    moreover have "lo \<le> length (take j s)" using jr(1) jl by simp
    ultimately have "take n s = take j s @ take r (drop j s) \<and> lo \<le> length (take j s) \<and>
        list_all P (take j s) \<and> denotes ps (take r (drop j s))"
      using r(2) split by blast
    then have "denotes (Repeat P lo # ps) (take n s)"
      unfolding denotes.simps by blast
    moreover have "n \<le> length s" using jr(4) r(1) jl by simp
    ultimately show ?thesis using Repeat by simp
  qed
qed

lemma match_pieces_complete:
  "denotes ps u \<Longrightarrow> \<exists>n. match_pieces ps (u @ w) = Some n"
proof (induction ps arbitrary: u)
  case Nil
  then show ?case by simp
next
  case (Cons p ps)
  show ?case
  proof (cases p)
    case (Single P)
    with Cons.prems obtain c cs where "u = c # cs" "P c" "denotes ps cs" by auto
    with Cons.IH [of cs] Single show ?thesis by auto
  next
    case (Repeat P lo)
    with Cons.prems obtain u1 v where u: "u = u1 @ v" "lo \<le> length u1" "list_all P u1" "denotes ps v"
      by auto
    let ?s = "u @ w"
    let ?k = "length (takeWhile P ?s)"
    from Cons.IH [OF u(4)] obtain r where "match_pieces ps (v @ w) = Some r" by blast
    then have m: "match_pieces ps (drop (length u1) ?s) = Some r" using u(1) by simp
    have "length u1 \<le> ?k" using run_covers [OF u(3), of "v @ w"] u(1) by simp
    from backtrack_complete [OF m u(2) this] obtain n where "backtrack ps lo ?k ?s = Some n" ..
    moreover have "\<not> ?k < lo" using \<open>length u1 \<le> ?k\<close> u(2) by simp
    ultimately show ?thesis using Repeat by (simp add: Let_def)
  qed
qed

lemma denotes_email: "denotes email_pattern s = email_shaped s"
proof
  assume "denotes email_pattern s"
  then obtain l d t where "s = l @ CHR ''@'' # d @ CHR ''.'' # t"
    "1 \<le> length l" "list_all local_char l" "1 \<le> length d" "list_all domain_char d"
    "2 \<le> length t" "list_all is_letter t"
    unfolding email_pattern_def by (auto simp: is_at_def is_dot_def)
  then show "email_shaped s"
    unfolding email_shaped_def
    by (intro exI [of _ l] exI [of _ d] exI [of _ t]) auto
next
  assume "email_shaped s"
  then obtain l d t where s: "s = l @ ''@'' @ d @ ''.'' @ t"
    and l: "l \<noteq> []" "list_all local_char l" and d: "d \<noteq> []" "list_all domain_char d"
    and t: "2 \<le> length t" "list_all is_letter t"
    unfolding email_shaped_def by blast
  have "denotes [Repeat is_letter 2] t"
    using t by simp
  then have "denotes [Single is_dot, Repeat is_letter 2] (''.'' @ t)"
    by (simp add: is_dot_def)
  with d have "d @ ''.'' @ t = d @ (''.'' @ t) \<and> 1 \<le> length d \<and> list_all domain_char d \<and>
      denotes [Single is_dot, Repeat is_letter 2] (''.'' @ t)"
    by (simp add: Suc_le_eq del: denotes.simps)
  then have "denotes [Repeat domain_char 1, Single is_dot, Repeat is_letter 2] (d @ ''.'' @ t)"
    unfolding denotes.simps(3) by blast
  then have "denotes [Single is_at, Repeat domain_char 1, Single is_dot, Repeat is_letter 2]
      (''@'' @ d @ ''.'' @ t)"
    by (simp add: is_at_def del: denotes.simps(3))
  with l have "s = l @ (''@'' @ d @ ''.'' @ t) \<and> 1 \<le> length l \<and> list_all local_char l \<and>
      denotes [Single is_at, Repeat domain_char 1, Single is_dot, Repeat is_letter 2]
        (''@'' @ d @ ''.'' @ t)"
    unfolding s by (simp add: Suc_le_eq del: denotes.simps)
  then show "denotes email_pattern s"
    unfolding email_pattern_def denotes.simps(3) by blast
qed

lemma email_match_sound:
  "match_pieces email_pattern s = Some n \<Longrightarrow> n \<le> length s \<and> email_shaped (take n s)"
  using match_pieces_sound [of email_pattern s n] by (simp add: denotes_email)

lemma find_emails_sound:
  "e \<in> set (find_emails doc) \<Longrightarrow> sublist e doc \<and> email_shaped e"
proof (induction doc rule: find_emails.induct)
  case 1
  then show ?case by simp
next
  case (2 c cs)
  show ?case
  proof (cases "match_pieces email_pattern (c # cs)")
    case None
    with 2 have "sublist e cs \<and> email_shaped e" by simp
    then show ?thesis by (simp add: sublist_Cons_right)
  next
    case (Some n)
    from email_match_sound [OF Some] have shaped: "email_shaped (take n (c # cs))" by simp
    from 2(3) Some have "e = take n (c # cs) \<or> e \<in> set (find_emails (drop n (c # cs)))"
      by simp
    then show ?thesis
    proof
      assume e: "e = take n (c # cs)"
      have "prefix e (c # cs)" unfolding e by (rule take_is_prefix)
      then show ?thesis using shaped e by (auto intro: prefix_imp_sublist)
    next
      assume "e \<in> set (find_emails (drop n (c # cs)))"
      with 2(2) [OF Some] have "sublist e (drop n (c # cs))" "email_shaped e" by simp_all
      moreover have "suffix (drop n (c # cs)) (c # cs)" by (rule suffix_drop)
      ultimately show ?thesis
        by (meson sublist_order.order_trans suffix_imp_sublist)
    qed
  qed
qed

lemma find_emails_hit:
  "match_pieces email_pattern (drop i s) = Some n \<Longrightarrow> find_emails s \<noteq> []"
proof (induction s arbitrary: i rule: find_emails.induct)
  case 1
  then show ?case by (simp add: email_pattern_def Let_def)
next
  case (2 c cs)
  show ?case
  proof (cases "match_pieces email_pattern (c # cs)")
    case (Some m)
    then show ?thesis by simp
  next
    case None
    with "2.prems" obtain j where "i = Suc j" by (cases i) auto
    with "2.prems" have "match_pieces email_pattern (drop j cs) = Some n" by simp
    with "2.IH"(1) [OF None] have "find_emails cs \<noteq> []" by blast
    with None show ?thesis by simp
  qed
qed

lemma find_emails_complete:
  assumes "sublist u doc" "email_shaped u"
  shows "find_emails doc \<noteq> []"
proof -
  from assms(1) obtain pre post where doc: "doc = pre @ u @ post"
    by (auto simp: sublist_def)
  from assms(2) have "denotes email_pattern u" by (simp add: denotes_email)
  then obtain n where "match_pieces email_pattern (u @ post) = Some n"
    using match_pieces_complete by blast
  then have "match_pieces email_pattern (drop (length pre) doc) = Some n"
    by (simp add: doc)
  then show ?thesis by (rule find_emails_hit)
qed

lemma find_emails_empty_iff:
  "find_emails doc = [] \<longleftrightarrow> \<not> (\<exists>u. sublist u doc \<and> email_shaped u)"
proof
  assume "find_emails doc = []"
  then show "\<not> (\<exists>u. sublist u doc \<and> email_shaped u)"
    using find_emails_complete by blast
next
  assume none: "\<not> (\<exists>u. sublist u doc \<and> email_shaped u)"
  show "find_emails doc = []"
  proof (rule ccontr)
    assume "find_emails doc \<noteq> []"
    then obtain e where "e \<in> set (find_emails doc)" by (cases "find_emails doc") auto
    then have "sublist e doc \<and> email_shaped e" by (rule find_emails_sound)
    with none show False by blast
  qed
qed


lemma letter_is_domain: "is_letter c \<Longrightarrow> domain_char c"
  by (simp add: domain_char_def)


lemma dot_is_domain: "domain_char CHR ''.''"
  by (simp add: domain_char_def)

lemma at_not_local: "\<not> local_char CHR ''@''"
  by (simp add: local_char_def is_letter_def is_digit_def less_eq_char_def)

lemma at_not_domain: "\<not> domain_char CHR ''@''"
  by (simp add: domain_char_def is_letter_def is_digit_def less_eq_char_def)














section \<open>The loops of the directory walk\<close>

lemma file_result:
  "fst (extract_emails_from_file w p) =
     (case read_text w p of Text doc \<Rightarrow> Some (set (find_emails doc)) | _ \<Rightarrow> None)"
  by (simp add: extract_emails_from_file_def split: read_result.splits)

lemma file_events_opened: "opened (snd (extract_emails_from_file w p)) = [p]"
  by (simp add: extract_emails_from_file_def split: read_result.splits)

lemma file_events_calls: "calls (snd (extract_emails_from_file w p)) = [OpenRead p]"
  by (simp add: extract_emails_from_file_def calls_def split: read_result.splits)

lemma file_events_sink: "filter is_sink (snd (extract_emails_from_file w p)) = []"
  by (simp add: extract_emails_from_file_def split: read_result.splits)

lemma opened_append: "opened (xs @ ys) = opened xs @ opened ys"
  by (induction xs rule: opened.induct) simp_all

lemma calls_append: "calls (xs @ ys) = calls xs @ calls ys"
  by (simp add: calls_def)

lemma files_loop_step:
  "files_loop w root (f # files) st =
     files_loop w root files
       (fst st \<union> harvest w (path_join root f),
        snd st @ snd (extract_emails_from_file w (path_join root f)))"
  by (cases st)
    (simp add: harvest_def extract_emails_from_file_def Let_def split: read_result.splits)

lemma files_loop_fst:
  "fst (files_loop w root files st) = fst st \<union> (\<Union>p \<in> set (map (path_join root) files). harvest w p)"
proof (induction files arbitrary: st)
  case Nil
  then show ?case by simp
next
  case (Cons f files)
  show ?case
    unfolding files_loop_step Cons.IH by auto
qed

lemma files_loop_snd:
  "snd (files_loop w root files st) =
     snd st @ concat (map (\<lambda>p. snd (extract_emails_from_file w p)) (map (path_join root) files))"
proof (induction files arbitrary: st)
  case Nil
  then show ?case by simp
next
  case (Cons f files)
  show ?case
    unfolding files_loop_step Cons.IH by simp
qed

lemma walk_loop_fst:
  "fst (walk_loop w True triples st) =
     fst st \<union> (\<Union>p \<in> set (concat (map triple_paths triples)). harvest w p)"
proof (induction triples arbitrary: st)
  case Nil
  then show ?case by simp
next
  case (Cons tr triples)
  obtain root dirs files where tr: "tr = (root, dirs, files)" by (cases tr) auto
  show ?case
    unfolding tr by (simp add: Cons.IH files_loop_fst Un_assoc)
qed

lemma walk_loop_snd:
  "snd (walk_loop w True triples st) =
     snd st @ concat (map (\<lambda>p. snd (extract_emails_from_file w p)) (concat (map triple_paths triples)))"
proof (induction triples arbitrary: st)
  case Nil
  then show ?case by simp
next
  case (Cons tr triples)
  obtain root dirs files where tr: "tr = (root, dirs, files)" by (cases tr) auto
  show ?case
    unfolding tr by (simp add: Cons.IH files_loop_snd)
qed

lemma walk_tree_paths: "concat (map triple_paths (walk_tree root t)) = tree_files root t"
proof (induction root t rule: walk_tree.induct)
  case (1 root)
  then show ?case by simp
next
  case (2 root dirs files)
  have "concat (map triple_paths (concat (map (\<lambda>(d, t). walk_tree (path_join root d) t) dirs)))
      = concat (map (\<lambda>(d, t). tree_files (path_join root d) t) dirs)"
    using 2 by (induction dirs) auto
  then show ?case by simp
qed

lemma walk_loop_tree_fst:
  "fst (walk_loop w recursive (walk_tree root t) st) =
     fst st \<union> (\<Union>p \<in> set (visited recursive root t). harvest w p)"
proof (cases recursive)
  case True
  then show ?thesis
    by (simp add: walk_loop_fst walk_tree_paths visited_def)
next
  case False
  then show ?thesis
    by (cases t) (simp_all add: files_loop_fst visited_def)
qed

lemma walk_loop_tree_snd:
  "snd (walk_loop w recursive (walk_tree root t) st) =
     snd st @ concat (map (\<lambda>p. snd (extract_emails_from_file w p)) (visited recursive root t))"
proof (cases recursive)
  case True
  then show ?thesis
    by (simp add: walk_loop_snd walk_tree_paths visited_def)
next
  case False
  then show ?thesis
    by (cases t) (simp_all add: files_loop_snd visited_def)
qed

lemma directory_result:
  assumes "scan w path = Tree t"
  shows "extract_emails_from_directory w path recursive =
     (Some (\<Union>p \<in> set (visited recursive path t). harvest w p),
      Walk path # concat (map (\<lambda>p. snd (extract_emails_from_file w p)) (visited recursive path t)))"
proof -
  let ?r = "walk_loop w recursive (walk_tree path t) ({}, [Walk path])"
  have "fst ?r = (\<Union>p \<in> set (visited recursive path t). harvest w p)"
    by (simp add: walk_loop_tree_fst)
  moreover have "snd ?r =
      Walk path # concat (map (\<lambda>p. snd (extract_emails_from_file w p)) (visited recursive path t))"
    by (simp add: walk_loop_tree_snd)
  ultimately have "?r = (\<Union>p \<in> set (visited recursive path t). harvest w p,
      Walk path # concat (map (\<lambda>p. snd (extract_emails_from_file w p)) (visited recursive path t)))"
    by (metis prod.collapse)
  then show ?thesis
    using assms by (simp add: extract_emails_from_directory_def os_walk_def)
qed

lemma directory_raises:
  assumes "scan w path = Raises"
  shows "extract_emails_from_directory w path recursive =
     (None, [Walk path, LogError (ErrorProcessingDirectory path)])"
  using assms by (simp add: extract_emails_from_directory_def os_walk_def)

lemma opened_file_events:
  "opened (concat (map (\<lambda>p. snd (extract_emails_from_file w p)) ps)) = ps"
  by (induction ps) (simp_all add: opened_append file_events_opened)

lemma calls_file_events:
  "calls (concat (map (\<lambda>p. snd (extract_emails_from_file w p)) ps)) = map OpenRead ps"
  by (induction ps) (simp_all add: calls_append file_events_calls, simp add: calls_def)

lemma sink_file_events:
  "filter is_sink (concat (map (\<lambda>p. snd (extract_emails_from_file w p)) ps)) = []"
  by (induction ps) (simp_all add: file_events_sink)

section \<open>Evaluation on concrete texts\<close>

lemmas eval_pattern = email_pattern_def local_char_def domain_char_def is_letter_def
  is_digit_def is_at_def is_dot_def backtrack.simps

lemma scenario_text:
  "find_emails ''Contact: a.b+c@example.co.uk or bad-email'' = [''a.b+c@example.co.uk'']"
  by (simp add: eval_pattern)

lemma shaped_has_at: "email_shaped u \<Longrightarrow> CHR ''@'' \<in> set u"
  by (auto simp: email_shaped_def)

section \<open>The pattern matcher\<close>




text \<open>
  Claim C8. For every text with no substring that matches the rule, extraction from a
  source that was read with success (a file or a page) returns the empty set, which is
  not the failure marker \<open>None\<close>.
\<close>

theorem no_match_is_empty_success:
  assumes "\<forall>u. sublist u doc \<longrightarrow> \<not> email_shaped u"
  shows "(read_text w p = Text doc \<longrightarrow>
            fst (extract_emails_from_file w p) = Some {} \<and>
            fst (extract_emails_from_file w p) \<noteq> None) \<and>
         (fetch w url = Page doc \<longrightarrow>
            fst (extract_emails_from_url w url) = Some {} \<and>
            fst (extract_emails_from_url w url) \<noteq> None)"
proof -
  from assms have "find_emails doc = []"
    using find_emails_empty_iff [of doc] by blast
  then show ?thesis
    by (simp add: extract_emails_from_file_def extract_emails_from_url_def)
qed

theorem no_match_is_empty_success_witness:
  "read_text demo_world ''notes.txt'' = Text ''bad-email'' \<and>
   fst (extract_emails_from_file demo_world ''notes.txt'') = Some {} \<and>
   fst (extract_emails_from_file demo_world ''notes.txt'') \<noteq> None"
proof -
  have none: "\<forall>u. sublist u ''bad-email'' \<longrightarrow> \<not> email_shaped u"
  proof (intro allI impI notI)
    fix u assume "sublist u ''bad-email''" "email_shaped u"
    then have "CHR ''@'' \<in> set ''bad-email''"
      using shaped_has_at set_mono_sublist by blast
    then show False by simp
  qed
  have rd: "read_text demo_world ''notes.txt'' = Text ''bad-email''"
    by (simp add: demo_world_def)
  with no_match_is_empty_success [OF none, of demo_world "''notes.txt''"] show ?thesis
    by simp
qed

section \<open>The shape of extracted strings\<close>

lemma local_not_whitespace: "local_char c \<Longrightarrow> \<not> is_whitespace c"
  by (auto simp: local_char_def is_letter_def is_digit_def is_whitespace_def less_eq_char_def)

lemma domain_is_local: "domain_char c \<Longrightarrow> local_char c"
  by (auto simp: domain_char_def local_char_def)

lemma class_free_of:
  assumes "list_all P xs" "\<not> P c"
  shows "count_list xs c = 0"
proof -
  from assms have "c \<notin> set xs" by (auto simp: list_all_iff)
  then show ?thesis by (rule count_notin)
qed

lemma shaped_address:
  assumes "email_shaped e"
  shows "count_list e CHR ''@'' = 1"
    and "\<exists>l r. e = l @ ''@'' @ r \<and> l \<noteq> [] \<and> r \<noteq> []"
    and "\<not> list_ex is_whitespace e"
    and "list_all (\<lambda>c. local_char c \<or> is_at c) e"
proof -
  from assms obtain l d t where e: "e = l @ ''@'' @ d @ ''.'' @ t"
    and l: "l \<noteq> []" "list_all local_char l" and d: "d \<noteq> []" "list_all domain_char d"
    and t: "2 \<le> length t" "list_all is_letter t"
    unfolding email_shaped_def by blast
  have td: "list_all domain_char t"
    using t(2) by (auto simp: list_all_iff intro: letter_is_domain)
  have "count_list l CHR ''@'' = 0" using l(2) at_not_local by (rule class_free_of)
  moreover have "count_list d CHR ''@'' = 0" using d(2) at_not_domain by (rule class_free_of)
  moreover have "count_list t CHR ''@'' = 0" using td at_not_domain by (rule class_free_of)
  ultimately show "count_list e CHR ''@'' = 1" by (simp add: e)
  have "e = l @ ''@'' @ (d @ ''.'' @ t) \<and> l \<noteq> [] \<and> d @ ''.'' @ t \<noteq> []"
    using e l(1) by simp
  then show "\<exists>l r. e = l @ ''@'' @ r \<and> l \<noteq> [] \<and> r \<noteq> []" by blast
  have cls: "local_char c \<or> is_at c" if "c \<in> set e" for c
  proof -
    from that e have "c \<in> set l \<or> c = CHR ''@'' \<or> c \<in> set d \<or> c = CHR ''.'' \<or> c \<in> set t"
      by auto
    then have "local_char c \<or> c = CHR ''@'' \<or> domain_char c"
      using l(2) d(2) td dot_is_domain by (auto simp: list_all_iff)
    then show ?thesis
      using domain_is_local by (auto simp: is_at_def)
  qed
  have "\<not> is_whitespace c" if "c \<in> set e" for c
    using cls [OF that] local_not_whitespace by (auto simp: is_at_def is_whitespace_def)
  then show "\<not> list_ex is_whitespace e" by (auto simp: list_ex_iff)
  from cls show "list_all (\<lambda>c. local_char c \<or> is_at c) e" by (simp add: list_all_iff)
qed

lemma found_address:
  assumes "e \<in> set (find_emails doc)"
  shows "address_in e doc"
proof -
  from assms have "sublist e doc" "email_shaped e"
    using find_emails_sound by blast+
  with shaped_address [of e] show ?thesis by (simp add: address_in_def)
qed

lemma harvest_Some:
  "(fst (extract_emails_from_file w p) = Some E) = (\<exists>doc. read_text w p = Text doc \<and> E = set (find_emails doc))"
  by (auto simp: file_result split: read_result.splits)

lemma harvest_mem:
  "e \<in> harvest w p \<Longrightarrow> \<exists>doc. read_text w p = Text doc \<and> e \<in> set (find_emails doc)"
  by (auto simp: harvest_def split: read_result.splits)

text \<open>
  Claim C10. Every string in an extraction result (of a file, of a page, of a directory)
  has exactly one \<open>@\<close>, is not empty on either side of it, holds no whitespace or newline
  character (all its characters are \<open>@\<close> or of the local class), and is a contiguous
  part of the text it was extracted from; for a directory
  that text is the content of one of the files the walk opened.
\<close>

theorem extracted_strings_well_formed:
  "(fst (extract_emails_from_file w p) = Some S \<longrightarrow>
      (\<forall>e \<in> S. \<exists>doc. read_text w p = Text doc \<and> address_in e doc)) \<and>
   (fst (extract_emails_from_url w url) = Some S \<longrightarrow>
      (\<forall>e \<in> S. \<exists>doc. fetch w url = Page doc \<and> address_in e doc)) \<and>
   (fst (extract_emails_from_directory w path recursive) = Some S \<longrightarrow>
      (\<forall>e \<in> S. \<exists>q doc.
         q \<in> set (opened (snd (extract_emails_from_directory w path recursive))) \<and>
         read_text w q = Text doc \<and> address_in e doc))"
proof (intro conjI impI ballI)
  fix e assume "fst (extract_emails_from_file w p) = Some S" "e \<in> S"
  then obtain doc where "read_text w p = Text doc" "e \<in> set (find_emails doc)"
    by (auto simp: harvest_Some)
  then show "\<exists>doc. read_text w p = Text doc \<and> address_in e doc"
    using found_address by blast
next
  fix e assume "fst (extract_emails_from_url w url) = Some S" "e \<in> S"
  then obtain doc where "fetch w url = Page doc" "e \<in> set (find_emails doc)"
    by (auto simp: extract_emails_from_url_def split: fetch_result.splits)
  then show "\<exists>doc. fetch w url = Page doc \<and> address_in e doc"
    using found_address by blast
next
  fix e assume res: "fst (extract_emails_from_directory w path recursive) = Some S" and e: "e \<in> S"
  let ?opened = "opened (snd (extract_emails_from_directory w path recursive))"
  show "\<exists>q doc. q \<in> set ?opened \<and> read_text w q = Text doc \<and> address_in e doc"
  proof (cases "scan w path")
    case Raises
    with res show ?thesis by (simp add: directory_raises)
  next
    case (Tree t)
    from directory_result [OF Tree, of recursive] res e
    obtain q where q: "q \<in> set (visited recursive path t)" "e \<in> harvest w q"
      by auto
    have "?opened = visited recursive path t"
      by (simp add: directory_result [OF Tree] opened_file_events)
    moreover from q(2) obtain doc where "read_text w q = Text doc" "e \<in> set (find_emails doc)"
      using harvest_mem by blast
    ultimately have "q \<in> set ?opened \<and> read_text w q = Text doc \<and> address_in e doc"
      using q(1) found_address by simp
    then show ?thesis by blast
  qed
qed

theorem extracted_strings_well_formed_witness:
  "fst (extract_emails_from_file demo_world ''d/f1.txt'') = Some {''x@y.com''} \<and>
   read_text demo_world ''d/f1.txt'' = Text ''x@y.com'' \<and>
   address_in ''x@y.com'' ''x@y.com'' \<and>
   fst (extract_emails_from_url demo_world ''http://example.com/contact'')
     = Some {''a.b+c@example.co.uk''} \<and>
   address_in ''a.b+c@example.co.uk'' ''Contact: a.b+c@example.co.uk or bad-email'' \<and>
   fst (extract_emails_from_directory demo_world ''d'' False) = Some {''x@y.com''} \<and>
   (\<exists>q doc. q \<in> set (opened (snd (extract_emails_from_directory demo_world ''d'' False))) \<and>
      read_text demo_world q = Text doc \<and> address_in ''x@y.com'' doc)"
proof -
  have f: "fst (extract_emails_from_file demo_world ''d/f1.txt'') = Some {''x@y.com''}"
    and rd: "read_text demo_world ''d/f1.txt'' = Text ''x@y.com''"
    by (simp_all add: extract_emails_from_file_def demo_world_def eval_pattern)
  have u: "fst (extract_emails_from_url demo_world ''http://example.com/contact'')
     = Some {''a.b+c@example.co.uk''}"
    and pg: "fetch demo_world ''http://example.com/contact''
     = Page ''Contact: a.b+c@example.co.uk or bad-email''"
    by (simp_all add: extract_emails_from_url_def demo_world_def eval_pattern)
  have d: "fst (extract_emails_from_directory demo_world ''d'' False) = Some {''x@y.com''}"
    by (simp add: extract_emails_from_directory_def os_walk_def demo_world_def
        extract_emails_from_file_def path_join_def suffix_def Let_def eval_pattern)
  note inst = extracted_strings_well_formed [of demo_world "''d/f1.txt''" "{''x@y.com''}"]
    extracted_strings_well_formed [of demo_world _ "{''a.b+c@example.co.uk''}" "''http://example.com/contact''"]
    extracted_strings_well_formed [of demo_world _ "{''x@y.com''}" _ "''d''" False]
  from inst(1) f rd have "address_in ''x@y.com'' ''x@y.com''" by auto
  moreover from inst(2) u pg
  have "address_in ''a.b+c@example.co.uk'' ''Contact: a.b+c@example.co.uk or bad-email''"
    by auto
  moreover from inst(3) d
  have "\<exists>q doc. q \<in> set (opened (snd (extract_emails_from_directory demo_world ''d'' False))) \<and>
      read_text demo_world q = Text doc \<and> address_in ''x@y.com'' doc"
    by auto
  ultimately show ?thesis using f rd u d by simp
qed

section \<open>The directory walker\<close>

lemmas eval_program = extract_emails_from_directory_def os_walk_def demo_world_def
  extract_emails_from_file_def extract_emails_from_url_def path_join_def suffix_def Let_def
  eval_pattern


lemma harvest_iff:
  "e \<in> harvest w p \<longleftrightarrow> (\<exists>doc. read_text w p = Text doc \<and> e \<in> set (find_emails doc))"
  by (cases "read_text w p") (simp_all add: harvest_def)


lemma harvest_readable:
  "(\<Union>p \<in> set ps. harvest w p) =
     \<Union> {set (find_emails doc) | p doc. p \<in> set ps \<and> read_text w p = Text doc}"
proof (intro set_eqI iffI)
  fix e assume "e \<in> (\<Union>p \<in> set ps. harvest w p)"
  then obtain p doc where "p \<in> set ps \<and> read_text w p = Text doc \<and> e \<in> set (find_emails doc)"
    by (auto simp: harvest_iff)
  then show "e \<in> \<Union> {set (find_emails doc) | p doc. p \<in> set ps \<and> read_text w p = Text doc}"
    by blast
next
  fix e assume "e \<in> \<Union> {set (find_emails doc) | p doc. p \<in> set ps \<and> read_text w p = Text doc}"
  then obtain p doc where "p \<in> set ps" "read_text w p = Text doc" "e \<in> set (find_emails doc)"
    by blast
  then have "p \<in> set ps \<and> e \<in> harvest w p"
    by (auto simp: harvest_iff)
  then show "e \<in> (\<Union>p \<in> set ps. harvest w p)" by blast
qed





text \<open>
  Claim C4. During directory extraction a file whose reader fails is skipped and the walk
  goes on: every listed file is still opened, the result is the union over the files that
  could be read, and it is never the failure marker.
\<close>

theorem unreadable_file_is_skipped:
  assumes "scan w path = Tree t"
  shows "opened (snd (extract_emails_from_directory w path recursive)) = visited recursive path t \<and>
         fst (extract_emails_from_directory w path recursive) =
           Some (\<Union> {set (find_emails doc) | p doc.
                   p \<in> set (visited recursive path t) \<and> read_text w p = Text doc}) \<and>
         fst (extract_emails_from_directory w path recursive) \<noteq> None"
  by (simp add: directory_result [OF assms] opened_file_events harvest_readable)

theorem unreadable_file_is_skipped_witness:
  "fst (extract_emails_from_file demo_world ''d/locked.bin'') = None \<and>
   opened (snd (extract_emails_from_directory demo_world ''d'' False))
     = [''d/f1.txt'', ''d/locked.bin'', ''d/f2.txt''] \<and>
   fst (extract_emails_from_directory demo_world ''d'' False) = Some {''x@y.com''} \<and>
   fst (extract_emails_from_directory demo_world ''d'' False) \<noteq> None"
proof -
  let ?t = "Listing [(''sub'', Listing [] [''deep.txt''])] [''f1.txt'', ''locked.bin'', ''f2.txt'']"
  have sc: "scan demo_world ''d'' = Tree ?t" by (simp add: demo_world_def)
  have "visited False ''d'' ?t = [''d/f1.txt'', ''d/locked.bin'', ''d/f2.txt'']"
    by (simp add: visited_def path_join_def suffix_def)
  moreover have "fst (extract_emails_from_file demo_world ''d/locked.bin'') = None"
    by (simp add: eval_program)
  moreover have "fst (extract_emails_from_directory demo_world ''d'' False) = Some {''x@y.com''}"
    by (simp add: eval_program)
  ultimately show ?thesis
    using unreadable_file_is_skipped [OF sc, of False] by simp
qed

text \<open>
  Claim C5, evaluated where it fails. The claim says that a directory whose traversal
  cannot start, such as one that may not be listed, gives the failure marker. For the
  directory \<open>locked\<close>, which cannot be listed, the walk yields nothing, the extraction
  returns the empty set as a success, and the run ends with ``extraction complete''.
\<close>

theorem unlistable_root_gives_empty_set:
  "scan demo_world ''locked'' = Tree Unlistable \<and>
   extract_emails_from_directory demo_world ''locked'' False = (Some {}, [Walk ''locked'']) \<and>
   extract_emails_from_directory demo_world ''locked'' True = (Some {}, [Walk ''locked'']) \<and>
   main demo_world ''locked'' False None = [Walk ''locked'', LogInfo ExtractionComplete]"
  by (simp add: eval_program main_def report_def)

section \<open>Duplicates\<close>



lemma whole_is_shaped: "find_emails a = [a] \<Longrightarrow> email_shaped a"
  using find_emails_sound [of a a] by simp



section \<open>The dispatcher and the end of a run\<close>

lemma calls_prints: "calls (map Print xs) = []"
  by (induction xs) (simp_all add: calls_def)

lemma calls_save: "calls (save_emails_to_file w S out) = []"
  by (simp add: save_emails_to_file_def calls_def)

lemma calls_report: "calls (report w out (r, evs)) = calls evs"
  by (cases r) (simp_all add: report_def calls_append calls_prints calls_save, simp_all add: calls_def)

lemma calls_url: "calls (snd (extract_emails_from_url w u)) = [HttpGet u]"
  by (simp add: extract_emails_from_url_def calls_def split: fetch_result.splits)

lemma calls_directory:
  "calls (snd (extract_emails_from_directory w path recursive)) =
     Walk path # map OpenRead (case scan w path of Tree t \<Rightarrow> visited recursive path t | Raises \<Rightarrow> [])"
proof (cases "scan w path")
  case (Tree t)
  have "calls [Walk path] = [Walk path]" by (simp add: calls_def)
  then have "calls (Walk path # evs) = Walk path # calls evs" for evs
    using calls_append [of "[Walk path]" evs] by simp
  then show ?thesis
    by (simp add: directory_result [OF Tree] Tree calls_file_events)
next
  case Raises
  then show ?thesis by (simp add: directory_raises calls_def)
qed

lemma calls_reported: "calls (report w out r) = calls (snd r)"
  by (cases r) (simp add: calls_report)

text \<open>
  Claim C3. The dispatcher classifies the source in this order, the first test that holds
  winning: a source beginning with \<open>http://\<close> or \<open>https://\<close> is fetched as a URL; else a
  source that names a regular file is read as a file; else a source that names a
  directory is walked; else the source is invalid, the error is logged and the run ends
  with nothing else done. The calls of a run are thus one fetch, or one read, or one walk
  with the reads of its files, or none: at most one extraction branch runs.
\<close>

theorem dispatch_first_match:
  "(is_url source \<longrightarrow> calls (main w source recursive out) = [HttpGet source]) \<and>
   (\<not> is_url source \<and> isfile w source \<longrightarrow>
      calls (main w source recursive out) = [OpenRead source]) \<and>
   (\<not> is_url source \<and> \<not> isfile w source \<and> isdir w source \<longrightarrow>
      calls (main w source recursive out) =
        Walk source # map OpenRead
          (case scan w source of Tree t \<Rightarrow> visited recursive source t | Raises \<Rightarrow> [])) \<and>
   (\<not> is_url source \<and> \<not> isfile w source \<and> \<not> isdir w source \<longrightarrow>
      main w source recursive out = [LogError InvalidSource])"
proof (intro conjI impI)
  assume "is_url source"
  then have "main w source recursive out = report w out (extract_emails_from_url w source)"
    by (simp add: main_def is_url_def)
  then show "calls (main w source recursive out) = [HttpGet source]"
    by (simp add: calls_reported calls_url)
next
  assume "\<not> is_url source \<and> isfile w source"
  then have "main w source recursive out = report w out (extract_emails_from_file w source)"
    by (simp add: main_def is_url_def)
  then show "calls (main w source recursive out) = [OpenRead source]"
    by (simp add: calls_reported file_events_calls)
next
  assume "\<not> is_url source \<and> \<not> isfile w source \<and> isdir w source"
  then have "main w source recursive out =
      report w out (extract_emails_from_directory w source recursive)"
    by (simp add: main_def is_url_def)
  then show "calls (main w source recursive out) =
      Walk source # map OpenRead
        (case scan w source of Tree t \<Rightarrow> visited recursive source t | Raises \<Rightarrow> [])"
    by (simp add: calls_reported calls_directory)
next
  assume "\<not> is_url source \<and> \<not> isfile w source \<and> \<not> isdir w source"
  then show "main w source recursive out = [LogError InvalidSource]"
    by (simp add: main_def is_url_def)
qed

theorem dispatch_first_match_witness:
  "calls (main demo_world ''http://example.com/contact'' False None)
     = [HttpGet ''http://example.com/contact''] \<and>
   calls (main demo_world ''notes.txt'' False None) = [OpenRead ''notes.txt''] \<and>
   calls (main demo_world ''pair'' False None)
     = [Walk ''pair'', OpenRead ''pair/f1.txt'', OpenRead ''pair/f2.txt''] \<and>
   main demo_world ''./does_not_exist'' False None = [LogError InvalidSource]"
proof -
  have u: "is_url ''http://example.com/contact''"
    and f: "\<not> is_url ''notes.txt'' \<and> isfile demo_world ''notes.txt''"
    and d: "\<not> is_url ''pair'' \<and> \<not> isfile demo_world ''pair'' \<and> isdir demo_world ''pair''"
    and n: "\<not> is_url ''./does_not_exist'' \<and> \<not> isfile demo_world ''./does_not_exist'' \<and>
            \<not> isdir demo_world ''./does_not_exist''"
    by (simp_all add: is_url_def demo_world_def)
  have v: "(case scan demo_world ''pair'' of Tree t \<Rightarrow> visited False ''pair'' t | Raises \<Rightarrow> [])
      = [''pair/f1.txt'', ''pair/f2.txt'']"
    by (simp add: demo_world_def visited_def path_join_def suffix_def)
  from u f d n v
    dispatch_first_match [of "''http://example.com/contact''" demo_world False None]
    dispatch_first_match [of "''notes.txt''" demo_world False None]
    dispatch_first_match [of "''pair''" demo_world False None]
    dispatch_first_match [of "''./does_not_exist''" demo_world False None]
  show ?thesis by simp
qed

lemma report_failure: "report w out (None, evs) = evs @ [LogError NoEmailsExtracted]"
  by (simp add: report_def)

lemma url_events_quiet:
  "filter is_sink (snd (extract_emails_from_url w u)) = [] \<and>
   LogInfo ExtractionComplete \<notin> set (snd (extract_emails_from_url w u))"
  by (simp add: extract_emails_from_url_def split: fetch_result.splits)

lemma file_events_quiet:
  "filter is_sink (snd (extract_emails_from_file w p)) = [] \<and>
   LogInfo ExtractionComplete \<notin> set (snd (extract_emails_from_file w p))"
  by (simp add: extract_emails_from_file_def split: read_result.splits)

lemma directory_failure:
  assumes "fst (extract_emails_from_directory w path recursive) = None"
  shows "snd (extract_emails_from_directory w path recursive)
     = [Walk path, LogError (ErrorProcessingDirectory path)]"
proof (cases "scan w path")
  case (Tree t)
  with assms show ?thesis by (simp add: directory_result)
next
  case Raises
  then show ?thesis by (simp add: directory_raises)
qed
lemma failed_report:
  assumes "fst r = None" "filter is_sink (snd r) = []" "LogInfo ExtractionComplete \<notin> set (snd r)"
  shows "no_output (report w out r)"
proof -
  from assms(1) have "report w out r = snd r @ [LogError NoEmailsExtracted]"
    by (cases r) (simp add: report_failure)
  with assms(2,3) show ?thesis by (simp add: no_output_def)
qed

text \<open>
  Claim C6. A run whose top-level extraction fails (the fetch of a URL, the read of a
  single file, the directory walker returning the failure marker, or a source that is
  none of the three kinds) ends after its error log line and produces no output: the sink
  is not invoked, nothing is printed and nothing is written.
\<close>

theorem failed_extraction_no_output:
  assumes "(is_url source \<and> fst (extract_emails_from_url w source) = None) \<or>
           (\<not> is_url source \<and> isfile w source \<and>
              fst (extract_emails_from_file w source) = None) \<or>
           (\<not> is_url source \<and> \<not> isfile w source \<and> isdir w source \<and>
              fst (extract_emails_from_directory w source recursive) = None) \<or>
           (\<not> is_url source \<and> \<not> isfile w source \<and> \<not> isdir w source)"
  shows "no_output (main w source recursive out)"
  using assms
proof (elim disjE conjE)
  assume "is_url source" "fst (extract_emails_from_url w source) = None"
  then show ?thesis
    using url_events_quiet [of w source]
    by (simp add: main_def is_url_def failed_report)
next
  assume "\<not> is_url source" "isfile w source" "fst (extract_emails_from_file w source) = None"
  then show ?thesis
    using file_events_quiet [of w source]
    by (simp add: main_def is_url_def failed_report)
next
  assume a: "\<not> is_url source" "\<not> isfile w source" "isdir w source"
    "fst (extract_emails_from_directory w source recursive) = None"
  from directory_failure [OF a(4)] a show ?thesis
    by (simp add: main_def is_url_def failed_report)
next
  assume "\<not> is_url source" "\<not> isfile w source" "\<not> isdir w source"
  then show ?thesis
    by (simp add: main_def is_url_def no_output_def)
qed

theorem failed_extraction_no_output_witness:
  "fetch demo_world ''http://example.com/timeout'' = RequestException \<and>
   no_output (main demo_world ''http://example.com/timeout'' False (Some ''out.txt'')) \<and>
   read_text demo_world ''vanished.txt'' = FileNotFoundError \<and>
   no_output (main demo_world ''vanished.txt'' False (Some ''out.txt'')) \<and>
   scan demo_world ''odd'' = Raises \<and>
   no_output (main demo_world ''odd'' True None) \<and>
   no_output (main demo_world ''./does_not_exist'' False None)"
proof -
  have u: "is_url ''http://example.com/timeout'' \<and>
      fst (extract_emails_from_url demo_world ''http://example.com/timeout'') = None"
    and f: "\<not> is_url ''vanished.txt'' \<and> isfile demo_world ''vanished.txt'' \<and>
      fst (extract_emails_from_file demo_world ''vanished.txt'') = None"
    and d: "\<not> is_url ''odd'' \<and> \<not> isfile demo_world ''odd'' \<and> isdir demo_world ''odd'' \<and>
      fst (extract_emails_from_directory demo_world ''odd'' True) = None"
    and n: "\<not> is_url ''./does_not_exist'' \<and> \<not> isfile demo_world ''./does_not_exist'' \<and>
            \<not> isdir demo_world ''./does_not_exist''"
    by (simp_all add: is_url_def eval_program)
  have w: "fetch demo_world ''http://example.com/timeout'' = RequestException"
    "read_text demo_world ''vanished.txt'' = FileNotFoundError"
    "scan demo_world ''odd'' = Raises"
    by (simp_all add: demo_world_def)
  from u f d n w
    failed_extraction_no_output [of "''http://example.com/timeout''" demo_world False "Some ''out.txt''"]
    failed_extraction_no_output [of "''vanished.txt''" demo_world False "Some ''out.txt''"]
    failed_extraction_no_output [of "''odd''" demo_world True None]
    failed_extraction_no_output [of "''./does_not_exist''" demo_world False None]
  show ?thesis by simp
qed

section \<open>The sink\<close>

lemma lines_from_line:
  "newline \<notin> set e \<Longrightarrow> lines_from cur (e @ newline # rest) = (cur @ e) # lines_from [] rest"
  by (induction e arbitrary: cur) auto

lemma read_lines_written:
  "\<forall>e \<in> set es. newline \<notin> set e \<Longrightarrow>
   read_lines (concat (map (\<lambda>e. e @ [newline]) es)) = es"
proof (induction es)
  case Nil
  then show ?case by (simp add: read_lines_def)
next
  case (Cons e es)
  then have "newline \<notin> set e" and rest: "read_lines (concat (map (\<lambda>e. e @ [newline]) es)) = es"
    by simp_all
  from lines_from_line [OF this(1), of "[]" "concat (map (\<lambda>e. e @ [newline]) es)"] rest
  show ?case by (simp add: read_lines_def)
qed

lemma shaped_no_newline:
  assumes "email_shaped e"
  shows "newline \<notin> set e"
proof
  assume "newline \<in> set e"
  moreover have "is_whitespace newline" by (simp add: is_whitespace_def newline_def)
  ultimately have "list_ex is_whitespace e" by (auto simp: list_ex_iff)
  with shaped_address(3) [OF assms] show False by simp
qed

text \<open>
  Claim C9. Round trip: for every extraction result, a set of strings that match the
  rule, writing it to a destination through the sink (one address per line, in the order
  of the set's iteration) and reading that file back line by line gives the same set of
  addresses; the file holds nothing else.
\<close>

theorem sink_round_trip:
  assumes "\<forall>e \<in> S. email_shaped e" and "set (iteration w S) = S" and "writable w out"
  shows "save_emails_to_file w S out =
           [WriteFile out (concat (map (\<lambda>e. e @ [newline]) (iteration w S))),
            LogInfo (SavedTo out)] \<and>
         read_lines (concat (map (\<lambda>e. e @ [newline]) (iteration w S))) = iteration w S \<and>
         set (read_lines (concat (map (\<lambda>e. e @ [newline]) (iteration w S)))) = S"
proof -
  from assms(1,2) have "\<forall>e \<in> set (iteration w S). newline \<notin> set e"
    using shaped_no_newline by blast
  then have "read_lines (concat (map (\<lambda>e. e @ [newline]) (iteration w S))) = iteration w S"
    by (rule read_lines_written)
  with assms(2,3) show ?thesis by (simp add: save_emails_to_file_def)
qed

theorem sink_round_trip_witness:
  "email_shaped ''x@y.com'' \<and> email_shaped ''deep@sub.example.org'' \<and>
   set (iteration demo_world {''x@y.com'', ''deep@sub.example.org''})
     = {''x@y.com'', ''deep@sub.example.org''} \<and>
   writable demo_world ''out.txt'' \<and>
   save_emails_to_file demo_world {''x@y.com'', ''deep@sub.example.org''} ''out.txt'' =
     [WriteFile ''out.txt'' (''deep@sub.example.org'' @ [newline] @ ''x@y.com'' @ [newline]),
      LogInfo (SavedTo ''out.txt'')] \<and>
   read_lines (''deep@sub.example.org'' @ [newline] @ ''x@y.com'' @ [newline])
     = [''deep@sub.example.org'', ''x@y.com'']"
proof -
  let ?S = "{''x@y.com'', ''deep@sub.example.org''}"
  have a: "email_shaped ''x@y.com''" and b: "email_shaped ''deep@sub.example.org''"
    by (rule whole_is_shaped, simp add: eval_pattern)+
  then have sh: "\<forall>e \<in> ?S. email_shaped e" by simp
  have it: "iteration demo_world ?S = [''deep@sub.example.org'', ''x@y.com'']"
    by (simp add: demo_world_def)
  then have en: "set (iteration demo_world ?S) = ?S" by auto
  have wr: "writable demo_world ''out.txt''" by (simp add: demo_world_def)
  from sink_round_trip [OF sh en wr] a b en wr show ?thesis
    by (simp add: it)
qed

end
